theory Spec2Isabelle
  imports Main
begin

section \<open>Substitution-only approximate search (fuzzysearch/susbstitutions\_only.py)\<close>

text \<open>
  A shallow embedding of the four entry points of the module and of the generator they
  share. Sequences are lists over an arbitrary element type, Python integers are
  \<open>int\<close>, positions produced by \<open>enumerate\<close> are \<open>nat\<close>, and every
  exception the module can raise is a value of the type \<open>error\<close>. A generator is
  modelled by the list of everything it yields, or by the exception that ends it.
\<close>

subsection \<open>Errors and the match value\<close>

datatype error = ValueError string | ZeroDivisionError | IndexError

text \<open>The three \<open>ValueError\<close>s of the module, under the names the specification gives them.\<close>

definition EmptySubsequence :: error where
  "EmptySubsequence = ValueError ''Given subsequence is empty!''"

definition NegativeBudget :: error where
  "NegativeBudget = ValueError ''Maximum number of substitutions must be >= 0!''"

definition BudgetExceedsLength :: error where
  "BudgetExceedsLength =
     ValueError ''The subsequence's length must be greater than max_substitutions!''"

text \<open>
  Modelled from the spec: \<open>fuzzysearch.common.Match\<close>, the immutable record
  \<open>{start, end, dist}\<close> of section 2, built with no validation. The field \<open>end\<close>
  is called \<open>end_index\<close> here.
\<close>

record Match =
  start :: int
  end_index :: int
  dist :: int

subsection \<open>Python primitives\<close>

text \<open>The slice \<open>xs[a:b]\<close>: a negative bound counts from the end, and both are clipped.\<close>

definition py_slice :: "'a list \<Rightarrow> int \<Rightarrow> int \<Rightarrow> 'a list" where
  "py_slice xs a b =
     (let n = int (length xs);
          a' = max 0 (min n (if a < 0 then a + n else a));
          b' = max 0 (min n (if b < 0 then b + n else b))
      in take (nat (b' - a')) (drop (nat a') xs))"

text \<open>Floor division \<open>a // b\<close>.\<close>

definition py_floordiv :: "int \<Rightarrow> int \<Rightarrow> error + int" where
  "py_floordiv a b = (if b = 0 then Inl ZeroDivisionError else Inr (a div b))"

text \<open>\<open>range(start, stop, step)\<close>, which refuses a zero step.\<close>

definition py_range :: "int \<Rightarrow> int \<Rightarrow> int \<Rightarrow> error + int list" where
  "py_range start' stop step =
     (if step = 0 then Inl (ValueError ''range() arg 3 must not be zero'')
      else if 0 < step then
        Inr (map (\<lambda>k. start' + int k * step) [0 ..< nat ((stop - start' + step - 1) div step)])
      else
        Inr (map (\<lambda>k. start' + int k * step) [0 ..< nat ((start' - stop - step - 1) div (- step))]))"

text \<open>\<open>sum((a != b) for (a, b) in zip(xs, ys))\<close>.\<close>

definition count_mismatches :: "'a list \<Rightarrow> 'a list \<Rightarrow> int" where
  "count_mismatches xs ys = sum_list (map (\<lambda>(a, b). if a \<noteq> b then 1 else 0) (zip xs ys))"

text \<open>
  Modelled from the spec: \<open>fuzzysearch.common.search_exact\<close>, which is not part of the
  module. Section 6 gives its contract: it returns the indices \<open>i\<close> with
  \<open>sequence[i:i+len(fragment)] == fragment\<close>, \<open>start_bound <= i\<close> and
  \<open>i + len(fragment) <= end_bound\<close>; section 1 says that it returns all of them. They
  are listed in increasing order.
\<close>

definition search_exact :: "'a list \<Rightarrow> 'a list \<Rightarrow> int \<Rightarrow> int \<Rightarrow> int list" where
  "search_exact fragment sequence start_bound end_bound =
     filter (\<lambda>i. py_slice sequence i (i + int (length fragment)) = fragment)
       [max 0 start_bound .. end_bound - int (length fragment)]"

subsection \<open>The ring-counter matcher\<close>

text \<open>
  \<open>char_indexes_in_subsequence\<close> is a \<open>defaultdict(list)\<close>: a total function whose
  default is the empty list, filled by one pass over \<open>enumerate(subsequence)\<close>.
\<close>

definition char_indexes_in_subsequence :: "'a list \<Rightarrow> 'a \<Rightarrow> nat list" where
  "char_indexes_in_subsequence subsequence =
     fold (\<lambda>(index, char) m. m(char := m char @ [index]))
       (enumerate 0 subsequence) (\<lambda>_. [])"

text \<open>
  \<open>for subseq_index in js: candidates[subseq_index] += 1\<close>. Indexing a deque out of
  range raises \<open>IndexError\<close>.
\<close>

fun inc_candidates :: "int list \<Rightarrow> nat list \<Rightarrow> error + int list" where
  "inc_candidates candidates [] = Inr candidates"
| "inc_candidates candidates (subseq_index # js) =
     (if subseq_index < length candidates
      then inc_candidates (candidates[subseq_index := candidates ! subseq_index + 1]) js
      else Inl IndexError)"

text \<open>\<open>candidates.appendleft(0)\<close> on a deque of bounded length: the right end falls off.\<close>

definition appendleft :: "nat \<Rightarrow> int \<Rightarrow> int list \<Rightarrow> int list" where
  "appendleft maxlen x candidates = take maxlen (x # candidates)"

text \<open>\<open>candidates.rotate(1)\<close>: the last counter becomes the first.\<close>

definition rotate_right :: "int list \<Rightarrow> int list" where
  "rotate_right candidates =
     (if candidates = [] then [] else last candidates # butlast candidates)"

text \<open>The first loop, over the first \<open>len(subsequence) - 1\<close> items of the sequence.\<close>

fun warm_up :: "('a \<Rightarrow> nat list) \<Rightarrow> nat \<Rightarrow> int list \<Rightarrow> (nat \<times> 'a) list \<Rightarrow> error + int list" where
  "warm_up idx subseq_len candidates [] = Inr candidates"
| "warm_up idx subseq_len candidates ((index, char) # rest) =
     (case inc_candidates candidates (filter (\<lambda>j. j \<le> index) (idx char)) of
        Inl e \<Rightarrow> Inl e
      | Inr c \<Rightarrow> warm_up idx subseq_len (appendleft subseq_len 0 c) rest)"

text \<open>The second loop, over the remaining items; it yields the matches.\<close>

fun steady :: "('a \<Rightarrow> nat list) \<Rightarrow> nat \<Rightarrow> int \<Rightarrow> int list \<Rightarrow> (nat \<times> 'a) list \<Rightarrow> error + Match list" where
  "steady idx subseq_len max_substitutions candidates [] = Inr []"
| "steady idx subseq_len max_substitutions candidates ((index, char) # rest) =
     (case inc_candidates candidates (idx char) of
        Inl e \<Rightarrow> Inl e
      | Inr c1 \<Rightarrow>
          (case rotate_right c1 of
             [] \<Rightarrow> Inl IndexError
           | c0 # cs \<Rightarrow>
               (let n_substitutions = int subseq_len - c0;
                    yielded =
                      (if n_substitutions \<le> max_substitutions
                       then [\<lparr>start = int index - (int subseq_len - 1),
                              end_index = int index + 1,
                              dist = n_substitutions\<rparr>]
                       else [])
                in case steady idx subseq_len max_substitutions (0 # cs) rest of
                     Inl e \<Rightarrow> Inl e
                   | Inr ms \<Rightarrow> Inr (yielded @ ms))))"

definition find_near_matches_substitutions_linear_programming ::
  "'a list \<Rightarrow> 'a list \<Rightarrow> int \<Rightarrow> error + Match list" where
  "find_near_matches_substitutions_linear_programming subsequence sequence max_substitutions =
     (if subsequence = [] then Inl EmptySubsequence
      else
        let subseq_len = length subsequence;
            idx = char_indexes_in_subsequence subsequence;
            sequence_enum = enumerate 0 sequence
        in case warm_up idx subseq_len [0] (take (subseq_len - 1) sequence_enum) of
             Inl e \<Rightarrow> Inl e
           | Inr candidates \<Rightarrow>
               steady idx subseq_len max_substitutions candidates
                 (drop (subseq_len - 1) sequence_enum))"

subsection \<open>The ngram matcher\<close>

text \<open>
  The body of the inner loop for one hit \<open>index\<close> of the fragment that starts at
  \<open>ngram_start\<close>: \<open>None\<close> is a \<open>continue\<close>, \<open>Some\<close> the match yielded.
\<close>

definition ngram_hit :: "'a list \<Rightarrow> 'a list \<Rightarrow> int \<Rightarrow> int \<Rightarrow> int \<Rightarrow> int \<Rightarrow> Match option" where
  "ngram_hit subsequence sequence max_substitutions ngram_start ngram_len index =
     (let subseq_len = int (length subsequence);
          ngram_end = ngram_start + ngram_len;
          subseq_before = py_slice subsequence 0 ngram_start;
          subseq_after = py_slice subsequence ngram_end subseq_len;
          seq_before = py_slice sequence (index - ngram_start) index;
          n1 = (if subseq_before \<noteq> seq_before
                then count_mismatches seq_before subseq_before else 0)
      in if subseq_before \<noteq> seq_before \<and> n1 > max_substitutions then None
         else
           let seq_after =
                 py_slice sequence (index + ngram_len) (index - ngram_start + subseq_len)
           in if subseq_after \<noteq> seq_after then
                if n1 = max_substitutions then None
                else
                  let n2 = n1 + count_mismatches seq_after subseq_after
                  in if n2 > max_substitutions then None
                     else Some \<lparr>start = index - ngram_start,
                                end_index = index - ngram_start + subseq_len,
                                dist = n2\<rparr>
              else Some \<lparr>start = index - ngram_start,
                         end_index = index - ngram_start + subseq_len,
                         dist = n1\<rparr>)"

text \<open>The hits of one fragment, in the order \<open>search_exact\<close> gives them.\<close>

definition ngram_matches :: "'a list \<Rightarrow> 'a list \<Rightarrow> int \<Rightarrow> int \<Rightarrow> int \<Rightarrow> Match list" where
  "ngram_matches subsequence sequence max_substitutions ngram_len ngram_start =
     (let subseq_len = int (length subsequence);
          seq_len = int (length sequence);
          ngram_end = ngram_start + ngram_len
      in List.map_filter
           (ngram_hit subsequence sequence max_substitutions ngram_start ngram_len)
           (search_exact (py_slice subsequence ngram_start ngram_end) sequence
              ngram_start (seq_len - (subseq_len - ngram_end))))"

text \<open>
  The head of the generator \<open>_find_near_matches_substitutions_ngrams\<close>: the fragment
  length, its check, and the fragment starts \<open>range(0, subseq_len - ngram_len + 1, ngram_len)\<close>.
\<close>

definition ngram_starts :: "'a list \<Rightarrow> int \<Rightarrow> error + int \<times> int list" where
  "ngram_starts subsequence max_substitutions =
     (let subseq_len = int (length subsequence)
      in case py_floordiv subseq_len (max_substitutions + 1) of
           Inl e \<Rightarrow> Inl e
         | Inr ngram_len \<Rightarrow>
             if ngram_len = 0 then Inl BudgetExceedsLength
             else
               (case py_range 0 (subseq_len - ngram_len + 1) ngram_len of
                  Inl e \<Rightarrow> Inl e
                | Inr starts \<Rightarrow> Inr (ngram_len, starts)))"

text \<open>The generator \<open>_find_near_matches_substitutions_ngrams\<close>.\<close>

definition raw_find_near_matches_substitutions_ngrams ::
  "'a list \<Rightarrow> 'a list \<Rightarrow> int \<Rightarrow> error + Match list" where
  "raw_find_near_matches_substitutions_ngrams subsequence sequence max_substitutions =
     (case ngram_starts subsequence max_substitutions of
        Inl e \<Rightarrow> Inl e
      | Inr (ngram_len, starts) \<Rightarrow>
          Inr (concat (map (ngram_matches subsequence sequence
                              max_substitutions ngram_len) starts)))"

text \<open>
  The loop of \<open>find_near_matches_substitutions_ngrams\<close> over the generator: the state is
  the set \<open>match_starts\<close> and the list \<open>matches\<close>.
\<close>

definition keep_first :: "Match \<Rightarrow> int set \<times> Match list \<Rightarrow> int set \<times> Match list" where
  "keep_first m st =
     (if start m \<notin> fst st then (insert (start m) (fst st), snd st @ [m]) else st)"

definition find_near_matches_substitutions_ngrams ::
  "'a list \<Rightarrow> 'a list \<Rightarrow> int \<Rightarrow> error + Match list" where
  "find_near_matches_substitutions_ngrams subsequence sequence max_substitutions =
     (case raw_find_near_matches_substitutions_ngrams subsequence sequence max_substitutions of
        Inl e \<Rightarrow> Inl e
      | Inr ms \<Rightarrow> Inr (sort_key start (snd (fold keep_first ms ({}, [])))))"

definition has_near_match_substitutions_ngrams ::
  "'a list \<Rightarrow> 'a list \<Rightarrow> int \<Rightarrow> error + bool" where
  "has_near_match_substitutions_ngrams subsequence sequence max_substitutions =
     (case raw_find_near_matches_substitutions_ngrams subsequence sequence max_substitutions of
        Inl e \<Rightarrow> Inl e
      | Inr [] \<Rightarrow> Inr False
      | Inr (m # ms) \<Rightarrow> Inr True)"

subsection \<open>The dispatcher\<close>

definition find_near_matches_substitutions ::
  "'a list \<Rightarrow> 'a list \<Rightarrow> int \<Rightarrow> error + Match list" where
  "find_near_matches_substitutions subsequence sequence max_substitutions =
     (if subsequence = [] then Inl EmptySubsequence
      else if max_substitutions < 0 then Inl NegativeBudget
      else if max_substitutions = 0 then
        Inr (map (\<lambda>start_index.
                    \<lparr>start = start_index,
                     end_index = start_index + int (length subsequence),
                     dist = 0\<rparr>)
               (search_exact subsequence sequence 0 (int (length sequence))))
      else
        (case py_floordiv (int (length subsequence)) (max_substitutions + 1) of
           Inl e \<Rightarrow> Inl e
         | Inr q \<Rightarrow>
             if 3 \<le> q
             then find_near_matches_substitutions_ngrams subsequence sequence max_substitutions
             else find_near_matches_substitutions_linear_programming
                    subsequence sequence max_substitutions))"

subsection \<open>The reference: windows compared element by element\<close>

text \<open>The mismatch count of the window of the sequence that starts at \<open>i\<close>.\<close>

definition window_dist :: "'a list \<Rightarrow> 'a list \<Rightarrow> int \<Rightarrow> int" where
  "window_dist subsequence sequence i =
     count_mismatches subsequence (py_slice sequence i (i + int (length subsequence)))"

text \<open>The valid window starts: every start of a full window with at most \<open>K\<close> mismatches.\<close>

definition valid_starts :: "'a list \<Rightarrow> 'a list \<Rightarrow> int \<Rightarrow> int list" where
  "valid_starts subsequence sequence max_substitutions =
     filter (\<lambda>i. window_dist subsequence sequence i \<le> max_substitutions)
       [0 .. int (length sequence) - int (length subsequence)]"

definition window_match :: "'a list \<Rightarrow> 'a list \<Rightarrow> int \<Rightarrow> Match" where
  "window_match subsequence sequence i =
     \<lparr>start = i, end_index = i + int (length subsequence),
      dist = window_dist subsequence sequence i\<rparr>"

text \<open>
  What section 8 asks of every match returned for \<open>(S, T, K)\<close>: it lies inside the
  sequence, is as long as the subsequence, and its distance is the mismatch count of its
  window and is within the budget.
\<close>

definition match_ok :: "'a list \<Rightarrow> 'a list \<Rightarrow> int \<Rightarrow> Match \<Rightarrow> bool" where
  "match_ok subsequence sequence max_substitutions m \<longleftrightarrow>
     0 \<le> start m \<and> start m \<le> end_index m \<and> end_index m \<le> int (length sequence) \<and>
     end_index m - start m = int (length subsequence) \<and>
     dist m = count_mismatches subsequence (py_slice sequence (start m) (end_index m)) \<and>
     dist m \<le> max_substitutions"

subsection \<open>Auxiliary notions of the proofs\<close>

text \<open>
  The number of positions below \<open>j\<close> at which the subsequence agrees with the window
  that starts at \<open>s\<close>, and the counters before the item at index \<open>i\<close> is read.
\<close>

definition matched :: "'a list \<Rightarrow> 'a list \<Rightarrow> nat \<Rightarrow> nat \<Rightarrow> int" where
  "matched S T s j = int j - count_mismatches (take j S) (take j (drop s T))"

definition counters :: "'a list \<Rightarrow> 'a list \<Rightarrow> nat \<Rightarrow> int list" where
  "counters S T i = map (\<lambda>j. matched S T (i - j) j) [0 ..< min (Suc i) (length S)]"

text \<open>The valid windows whose starts lie in \<open>[a, b)\<close>, in increasing order.\<close>

definition nat_reference :: "'a list \<Rightarrow> 'a list \<Rightarrow> int \<Rightarrow> nat \<Rightarrow> nat \<Rightarrow> Match list" where
  "nat_reference S T K a b =
     map (\<lambda>s. window_match S T (int s)) (filter (\<lambda>s. window_dist S T (int s) \<le> K) [a ..< b])"

section \<open>Properties\<close>

subsection \<open>Slices and mismatch counts\<close>

lemma py_slice_nonneg:
  "0 \<le> a \<Longrightarrow> a \<le> b \<Longrightarrow> py_slice xs a b = take (nat (b - a)) (drop (nat a) xs)"
  unfolding py_slice_def Let_def
  by (cases "b \<le> int (length xs)"; cases "a \<le> int (length xs)") (simp_all add: min_def max_def)

lemma py_slice_nat:
  "py_slice xs (int a) (int a + int n) = take n (drop a xs)"
  by (simp add: py_slice_nonneg)

lemma count_mismatches_Nil [simp]: "count_mismatches [] ys = 0" "count_mismatches xs [] = 0"
  by (simp_all add: count_mismatches_def)

lemma count_mismatches_Cons [simp]:
  "count_mismatches (x # xs) (y # ys) = (if x \<noteq> y then 1 else 0) + count_mismatches xs ys"
  by (simp add: count_mismatches_def)

lemma count_mismatches_nonneg: "0 \<le> count_mismatches xs ys"
  by (induction xs ys rule: list_induct2') simp_all

lemma count_mismatches_commute: "count_mismatches xs ys = count_mismatches ys xs"
  by (induction xs ys rule: list_induct2') auto

lemma count_mismatches_append:
  "length xs = length ys \<Longrightarrow>
   count_mismatches (xs @ xs') (ys @ ys') = count_mismatches xs ys + count_mismatches xs' ys'"
  by (induction xs ys rule: list_induct2) simp_all

lemma count_mismatches_zero_iff:
  "length xs = length ys \<Longrightarrow> count_mismatches xs ys = 0 \<longleftrightarrow> xs = ys"
proof (induction xs ys rule: list_induct2)
  case Nil
  then show ?case by simp
next
  case (Cons x xs y ys)
  then show ?case
    using count_mismatches_nonneg [of xs ys] by auto
qed

lemma count_mismatches_le_length: "count_mismatches xs ys \<le> int (length xs)"
  by (induction xs ys rule: list_induct2') auto

lemma count_mismatches_take_le:
  "count_mismatches (take n xs) (take n ys) \<le> count_mismatches xs ys"
proof (induction xs ys arbitrary: n rule: list_induct2')
  case (4 x xs y ys)
  then show ?case
    using count_mismatches_nonneg [of xs ys] by (cases n) auto
qed (simp_all add: count_mismatches_nonneg)

subsection \<open>The fragment loop\<close>

lemma ngram_len_pos: "0 \<le> K \<Longrightarrow> K < L \<Longrightarrow> 1 \<le> L div (K + 1)" for K L :: int
  using pos_imp_zdiv_pos_iff [of "K + 1" L] by simp

lemma ngram_starts_pos:
  assumes "0 \<le> K" "K < int (length S)"
  shows "ngram_starts S K =
           Inr (int (length S) div (K + 1),
                map (\<lambda>k. int k * (int (length S) div (K + 1)))
                    [0 ..< nat (int (length S) div (int (length S) div (K + 1)))])"
proof -
  let ?L = "int (length S)"
  let ?g = "?L div (K + 1)"
  have g: "1 \<le> ?g"
    using assms by (rule ngram_len_pos)
  have "(?L - ?g + 1 + ?g - 1) div ?g = ?L div ?g" by simp
  then show ?thesis
    using assms g by (simp add: ngram_starts_def py_floordiv_def py_range_def Let_def)
qed

lemma fragments_at_least:
  assumes "0 \<le> K" "K < int (length S)"
  shows "K + 1 \<le> int (length S) div (int (length S) div (K + 1))"
proof -
  let ?L = "int (length S)"
  let ?g = "?L div (K + 1)"
  have g: "1 \<le> ?g"
    using assms by (rule ngram_len_pos)
  have "(K + 1) * ?g \<le> ?L"
    using assms mult_div_mod_eq [of "K + 1" ?L] pos_mod_sign [of "K + 1" ?L] by linarith
  then have "(K + 1) * ?g div ?g \<le> ?L div ?g"
    using g by (intro zdiv_mono1) simp_all
  then show ?thesis using g by simp
qed

subsection \<open>The ngram generator\<close>

lemma set_search_exact:
  "set (search_exact fragment sequence a b) =
     {i. max 0 a \<le> i \<and> i \<le> b - int (length fragment) \<and>
         py_slice sequence i (i + int (length fragment)) = fragment}"
  by (auto simp: search_exact_def)

lemma window_dist_nat:
  "window_dist S T (int s) = count_mismatches S (take (length S) (drop s T))"
  by (simp add: window_dist_def py_slice_nat)

lemma count_mismatches_differ:
  "length xs = length ys \<Longrightarrow> xs \<noteq> ys \<Longrightarrow> 1 \<le> count_mismatches xs ys"
  using count_mismatches_zero_iff [of xs ys] count_mismatches_nonneg [of xs ys] by linarith

text \<open>A window splits at a fragment into the part before, the fragment and the part after.\<close>

lemma count_mismatches_split3:
  assumes "length W = length S" "f + g \<le> length S"
  shows "count_mismatches S W =
           count_mismatches (take f S) (take f W)
         + count_mismatches (take g (drop f S)) (take g (drop f W))
         + count_mismatches (drop (f + g) S) (drop (f + g) W)"
proof -
  have S: "S = take f S @ take g (drop f S) @ drop (f + g) S"
    by (metis append_take_drop_id drop_drop add.commute)
  have W: "W = take f W @ take g (drop f W) @ drop (f + g) W"
    by (metis append_take_drop_id drop_drop add.commute)
  have "count_mismatches S W =
          count_mismatches (take f S @ take g (drop f S) @ drop (f + g) S)
                           (take f W @ take g (drop f W) @ drop (f + g) W)"
    using S W by simp
  also have "\<dots> = count_mismatches (take f S) (take f W)
         + (count_mismatches (take g (drop f S)) (take g (drop f W))
         + count_mismatches (drop (f + g) S) (drop (f + g) W))"
    using assms by (simp add: count_mismatches_append)
  finally show ?thesis by simp
qed

lemma ngram_hit_eq:
  assumes K: "0 \<le> K" and fg: "f + g \<le> length S" and s: "s + length S \<le> length T"
    and frag: "take g (drop (s + f) T) = take g (drop f S)"
  shows "ngram_hit S T K (int f) (int g) (int (s + f)) =
           (if window_dist S T (int s) \<le> K then Some (window_match S T (int s)) else None)"
proof -
  let ?W = "take (length S) (drop s T)"
  let ?sb = "take f S" and ?sa = "drop (f + g) S"
  let ?qb = "take f ?W" and ?qa = "drop (f + g) ?W"
  have lenW: "length ?W = length S" using s by simp
  have sb: "py_slice S 0 (int f) = ?sb" using py_slice_nat [of S 0 f] by simp
  have sa: "py_slice S (int f + int g) (int (length S)) = ?sa"
    using fg py_slice_nonneg [of "int f + int g" "int (length S)" S]
    by (simp add: nat_add_distrib nat_diff_distrib)
  have qb: "py_slice T (int (s + f) - int f) (int (s + f)) = ?qb"
    using fg py_slice_nat [of T s f] by (simp add: take_take min_def)
  have "py_slice T (int (s + f) + int g) (int (s + f) - int f + int (length S)) =
          take (length S - (f + g)) (drop (s + f + g) T)"
    using fg py_slice_nat [of T "s + f + g" "length S - (f + g)"] by (simp add: algebra_simps of_nat_diff)
  also have "\<dots> = ?qa"
    by (simp add: drop_take add.commute add.left_commute)
  finally have qa: "py_slice T (int (s + f) + int g) (int (s + f) - int f + int (length S)) = ?qa" .
  have mid: "take g (drop f ?W) = take g (drop f S)"
    using fg frag by (simp add: drop_take take_take min_def add.commute)
  have total: "window_dist S T (int s) = count_mismatches ?sb ?qb + count_mismatches ?sa ?qa"
    using count_mismatches_split3 [OF lenW fg] mid
    by (simp add: window_dist_nat count_mismatches_zero_iff)
  have lb: "length ?sb = length ?qb" and la: "length ?sa = length ?qa"
    using lenW by simp_all
  have nb: "0 \<le> count_mismatches ?sb ?qb" and na: "0 \<le> count_mismatches ?sa ?qa"
    by (rule count_mismatches_nonneg)+
  have zb: "?sb = ?qb \<Longrightarrow> count_mismatches ?sb ?qb = 0"
    and za: "?sa = ?qa \<Longrightarrow> count_mismatches ?sa ?qa = 0"
    using count_mismatches_zero_iff [OF lb] count_mismatches_zero_iff [OF la] by simp_all
  have pa: "?sa \<noteq> ?qa \<Longrightarrow> 1 \<le> count_mismatches ?sa ?qa"
    by (rule count_mismatches_differ [OF la])
  have unfold: "ngram_hit S T K (int f) (int g) (int (s + f)) =
     (let n1 = (if ?sb \<noteq> ?qb then count_mismatches ?qb ?sb else 0)
      in if ?sb \<noteq> ?qb \<and> n1 > K then None
         else if ?sa \<noteq> ?qa then
                if n1 = K then None
                else
                  let n2 = n1 + count_mismatches ?qa ?sa
                  in if n2 > K then None
                     else Some \<lparr>start = int s, end_index = int s + int (length S), dist = n2\<rparr>
              else Some \<lparr>start = int s, end_index = int s + int (length S), dist = n1\<rparr>)"
    unfolding ngram_hit_def Let_def sb sa qb qa by simp
  show ?thesis
  proof (cases "?sb = ?qb")
    case True
    note b = this
    show ?thesis
    proof (cases "?sa = ?qa")
      case True
      show ?thesis
        unfolding unfold total window_match_def Let_def
        using K b True zb za by (simp add: total)
    next
      case False
      show ?thesis
        unfolding unfold total window_match_def Let_def
        using K b False zb pa count_mismatches_commute [of ?qa ?sa] by (auto simp: total)
    qed
  next
    case False
    note b = this
    show ?thesis
    proof (cases "?sa = ?qa")
      case True
      show ?thesis
        unfolding unfold total window_match_def Let_def
        using K b True za nb count_mismatches_commute [of ?qb ?sb] by (auto simp: total)
    next
      case False
      show ?thesis
        unfolding unfold total window_match_def Let_def
        using K b False pa nb count_mismatches_commute [of ?qb ?sb]
          count_mismatches_commute [of ?qa ?sa] by (auto simp: total)
    qed
  qed
qed

lemma set_map_filter_Some:
  "set (List.map_filter h xs) = {y. \<exists>x \<in> set xs. h x = Some y}"
  by (induction xs) (auto simp: List.map_filter_def)

lemma fragment_slice:
  "f + g \<le> length S \<Longrightarrow> py_slice S (int f) (int f + int g) = take g (drop f S)"
  by (rule py_slice_nat)

lemma set_ngram_matches:
  assumes K: "0 \<le> K" and g: "0 < g" and fg: "f + g \<le> length S"
  shows "set (ngram_matches S T K (int g) (int f)) =
           {window_match S T (int s) | s.
              s + length S \<le> length T \<and> window_dist S T (int s) \<le> K \<and>
              take g (drop (s + f) T) = take g (drop f S)}"
    (is "?lhs = ?rhs")
proof -
  let ?frag = "take g (drop f S)"
  have lenfrag: "length ?frag = g" using fg by simp
  have hits: "set (search_exact ?frag T (int f)
                    (int (length T) - (int (length S) - (int f + int g)))) =
              {int (s + f) | s. s + length S \<le> length T \<and> take g (drop (s + f) T) = ?frag}"
    (is "?H = ?H'")
  proof (rule set_eqI)
    fix i
    show "i \<in> ?H \<longleftrightarrow> i \<in> ?H'"
    proof
      assume "i \<in> ?H"
      then have i: "int f \<le> i" "i \<le> int (length T) - int (length S) + int f"
        and eq: "py_slice T i (i + int g) = ?frag"
        using lenfrag by (auto simp: set_search_exact)
      define s where "s = nat (i - int f)"
      have i_eq: "i = int (s + f)" using i by (simp add: s_def)
      have "s + length S \<le> length T" using i by (simp add: s_def)
      moreover have "take g (drop (s + f) T) = ?frag"
        using eq py_slice_nat [of T "s + f" g] by (simp add: i_eq)
      ultimately show "i \<in> ?H'" using i_eq by blast
    next
      assume "i \<in> ?H'"
      then obtain s where s: "i = int (s + f)" "s + length S \<le> length T"
        "take g (drop (s + f) T) = ?frag" by blast
      have "py_slice T i (i + int g) = ?frag"
        using s(3) py_slice_nat [of T "s + f" g] by (simp add: s(1))
      then show "i \<in> ?H"
        using s(1,2) lenfrag by (simp add: set_search_exact)
    qed
  qed
  have unfold: "ngram_matches S T K (int g) (int f) =
      List.map_filter (ngram_hit S T K (int f) (int g))
        (search_exact ?frag T (int f) (int (length T) - (int (length S) - (int f + int g))))"
    using fg by (simp add: ngram_matches_def Let_def fragment_slice)
  show ?thesis
  proof (rule set_eqI)
    fix m
    show "m \<in> ?lhs \<longleftrightarrow> m \<in> ?rhs"
    proof
      assume "m \<in> ?lhs"
      then obtain i where i: "i \<in> ?H" and m: "ngram_hit S T K (int f) (int g) i = Some m"
        unfolding unfold set_map_filter_Some by blast
      from i obtain s where s: "i = int (s + f)" "s + length S \<le> length T"
        "take g (drop (s + f) T) = ?frag" unfolding hits by blast
      from m have "window_dist S T (int s) \<le> K \<and> m = window_match S T (int s)"
        unfolding s(1) ngram_hit_eq [OF K fg s(2) s(3)] by (simp split: if_splits)
      then show "m \<in> ?rhs" using s by blast
    next
      assume "m \<in> ?rhs"
      then obtain s where s: "m = window_match S T (int s)" "s + length S \<le> length T"
        "window_dist S T (int s) \<le> K" "take g (drop (s + f) T) = ?frag" by blast
      have "int (s + f) \<in> ?H" unfolding hits using s by blast
      moreover have "ngram_hit S T K (int f) (int g) (int (s + f)) = Some m"
        using ngram_hit_eq [OF K fg s(2) s(4)] s(1,3) by simp
      ultimately show "m \<in> ?lhs"
        unfolding unfold set_map_filter_Some by blast
    qed
  qed
qed

text \<open>
  Pigeonhole: when each of the first \<open>m\<close> fragments has a mismatch, the window has at
  least \<open>m\<close> mismatches.
\<close>

lemma pigeonhole:
  assumes "length W = length S"
  shows "m * g \<le> length S \<Longrightarrow>
         (\<forall>k<m. take g (drop (k * g) W) \<noteq> take g (drop (k * g) S)) \<Longrightarrow>
         int m \<le> count_mismatches (take (m * g) S) (take (m * g) W)"
proof (induction m)
  case 0
  then show ?case by simp
next
  case (Suc m)
  have le: "m * g \<le> length S" using Suc.prems(1) by simp
  have IH: "int m \<le> count_mismatches (take (m * g) S) (take (m * g) W)"
    using Suc.IH [OF le] Suc.prems(2) by simp
  have sm: "Suc m * g = m * g + g" by simp
  have tS: "take (Suc m * g) S = take (m * g) S @ take g (drop (m * g) S)"
    unfolding sm by (rule take_add)
  have tW: "take (Suc m * g) W = take (m * g) W @ take g (drop (m * g) W)"
    unfolding sm by (rule take_add)
  have "take g (drop (m * g) S) \<noteq> take g (drop (m * g) W)"
    using Suc.prems(2) by (metis lessI)
  then have "1 \<le> count_mismatches (take g (drop (m * g) S)) (take g (drop (m * g) W))"
    using assms by (intro count_mismatches_differ) simp_all
  then show ?case
    unfolding tS tW using IH assms by (simp add: count_mismatches_append)
qed

lemma exact_fragment_exists:
  assumes len: "length W = length S" and d: "count_mismatches S W \<le> K"
    and K: "0 \<le> K" and fit: "(nat K + 1) * g \<le> length S"
  shows "\<exists>k \<le> nat K. take g (drop (k * g) W) = take g (drop (k * g) S)"
proof (rule ccontr)
  assume "\<not> ?thesis"
  then have "\<forall>k<nat K + 1. take g (drop (k * g) W) \<noteq> take g (drop (k * g) S)"
    by (simp add: less_Suc_eq_le)
  from pigeonhole [OF len fit this]
  have "int (nat K + 1) \<le> count_mismatches (take ((nat K + 1) * g) S) (take ((nat K + 1) * g) W)" .
  also have "\<dots> \<le> count_mismatches S W" by (rule count_mismatches_take_le)
  finally show False using d K by simp
qed

lemma set_valid_starts:
  "set (valid_starts S T K) =
     {i. 0 \<le> i \<and> i + int (length S) \<le> int (length T) \<and> window_dist S T i \<le> K}"
  by (auto simp: valid_starts_def)

lemma valid_windows_image:
  "{window_match S T (int s) | s.
      s + length S \<le> length T \<and> window_dist S T (int s) \<le> K} =
   window_match S T ` set (valid_starts S T K)"
proof -
  have "\<And>i. 0 \<le> i \<Longrightarrow> i + int (length S) \<le> int (length T) \<Longrightarrow> window_dist S T i \<le> K \<Longrightarrow>
       \<exists>s. window_match S T i = window_match S T (int s) \<and> s + length S \<le> length T \<and>
           window_dist S T (int s) \<le> K"
    subgoal for i by (rule exI [of _ "nat i"]) simp
    done
  then show ?thesis
    unfolding set_valid_starts by (auto simp: image_iff)
qed

lemma raw_ngrams_set:
  assumes K: "0 \<le> K" and KL: "K < int (length S)"
  shows "\<exists>ms. raw_find_near_matches_substitutions_ngrams S T K = Inr ms \<and>
              set ms = window_match S T ` set (valid_starts S T K)"
proof -
  let ?L = "int (length S)"
  define g where "g = nat (?L div (K + 1))"
  define cnt where "cnt = length S div g"
  have gpos: "1 \<le> ?L div (K + 1)" using K KL by (rule ngram_len_pos)
  then have g: "0 < g" and gi: "?L div (K + 1) = int g" by (simp_all add: g_def)
  have cnt_int: "nat (?L div int g) = cnt"
    unfolding cnt_def by (simp add: zdiv_int [symmetric])
  have starts: "ngram_starts S K = Inr (int g, map (\<lambda>k. int (k * g)) [0 ..< cnt])"
    using ngram_starts_pos [OF K KL] unfolding gi cnt_int by simp
  have fitk: "k * g + g \<le> length S" if "k < cnt" for k
  proof -
    have "Suc k \<le> length S div g" using that by (simp add: cnt_def)
    then have "Suc k * g \<le> (length S div g) * g" by (rule mult_le_mono1)
    also have "\<dots> \<le> length S" by simp
    finally show ?thesis by (simp add: add.commute)
  qed
  have Kcnt: "nat K < cnt"
    using fragments_at_least [OF K KL] K unfolding gi cnt_def
    by (simp add: zdiv_int [symmetric] nat_less_iff)
  have fit: "(nat K + 1) * g \<le> length S"
    using fitk [OF Kcnt] by (simp add: add.commute)
  define ms where "ms = concat (map (ngram_matches S T K (int g)) (map (\<lambda>k. int (k * g)) [0 ..< cnt]))"
  have raw: "raw_find_near_matches_substitutions_ngrams S T K = Inr ms"
    by (simp add: raw_find_near_matches_substitutions_ngrams_def starts ms_def)
  have "set ms = (\<Union>k \<in> {..<cnt}. set (ngram_matches S T K (int g) (int (k * g))))"
    by (auto simp: ms_def)
  also have "\<dots> = (\<Union>k \<in> {..<cnt}. {window_match S T (int s) | s.
              s + length S \<le> length T \<and> window_dist S T (int s) \<le> K \<and>
              take g (drop (s + k * g) T) = take g (drop (k * g) S)})"
    using set_ngram_matches [OF K g fitk] by simp
  also have "\<dots> = {window_match S T (int s) | s.
              s + length S \<le> length T \<and> window_dist S T (int s) \<le> K}" (is "?A = ?B")
  proof
    show "?A \<subseteq> ?B" by blast
    show "?B \<subseteq> ?A"
    proof
      fix m assume "m \<in> ?B"
      then obtain s where s: "m = window_match S T (int s)" "s + length S \<le> length T"
        "window_dist S T (int s) \<le> K" by blast
      let ?W = "take (length S) (drop s T)"
      have lenW: "length ?W = length S" using s(2) by simp
      have "count_mismatches S ?W \<le> K" using s(3) by (simp add: window_dist_nat)
      from exact_fragment_exists [OF lenW this K fit]
      obtain k where k: "k \<le> nat K" "take g (drop (k * g) ?W) = take g (drop (k * g) S)"
        by blast
      have kc: "k < cnt" using k(1) Kcnt by simp
      have "take g (drop (k * g) ?W) = take g (drop (s + k * g) T)"
        using fitk [OF kc] by (simp add: drop_take take_take min_def add.commute)
      then have "take g (drop (s + k * g) T) = take g (drop (k * g) S)" using k(2) by simp
      then show "m \<in> ?A" using s kc by blast
    qed
  qed
  finally show ?thesis using raw by (simp add: valid_windows_image)
qed

subsection \<open>Deduplication and sorting\<close>

lemma fold_keep_first:
  "A = start ` set acc \<Longrightarrow> distinct (map start acc) \<Longrightarrow>
   distinct (map start (snd (fold keep_first ms (A, acc)))) \<and>
   start ` set (snd (fold keep_first ms (A, acc))) = A \<union> start ` set ms \<and>
   fst (fold keep_first ms (A, acc)) = A \<union> start ` set ms \<and>
   (\<forall>m \<in> set (snd (fold keep_first ms (A, acc))).
      m \<in> set acc \<or> (start m \<notin> A \<and> find (\<lambda>m'. start m' = start m) ms = Some m))"
proof (induction ms arbitrary: A acc)
  case Nil
  then show ?case by simp
next
  case (Cons x ms)
  show ?case
  proof (cases "start x \<in> A")
    case True
    have step: "fold keep_first (x # ms) (A, acc) = fold keep_first ms (A, acc)"
      using True by (simp add: keep_first_def)
    from Cons.IH [OF Cons.prems] True show ?thesis
      unfolding step by auto
  next
    case False
    have step: "fold keep_first (x # ms) (A, acc) =
                fold keep_first ms (insert (start x) A, acc @ [x])"
      using False by (simp add: keep_first_def)
    have A': "insert (start x) A = start ` set (acc @ [x])" using Cons.prems(1) by simp
    have d': "distinct (map start (acc @ [x]))" using Cons.prems False by simp
    from Cons.IH [OF A' d'] False show ?thesis
      unfolding step by auto
  qed
qed

lemma dedup_properties:
  defines "kept ms \<equiv> snd (fold keep_first ms ({}, []))"
  shows "distinct (map start (kept ms))"
    and "start ` set (kept ms) = start ` set ms"
    and "m \<in> set (kept ms) \<Longrightarrow> find (\<lambda>m'. start m' = start m) ms = Some m"
  using fold_keep_first [of "{}" "[]" ms] unfolding kept_def by auto

lemma find_Some_mem: "find P xs = Some x \<Longrightarrow> x \<in> set xs"
  by (induction xs) (auto split: if_splits)

lemma distinct_map_insort_key:
  "distinct (map f (insort_key f x xs)) \<longleftrightarrow> f x \<notin> f ` set xs \<and> distinct (map f xs)"
  by (induction xs) (auto simp: set_insort_key)

lemma distinct_map_sort_key:
  "distinct (map f (sort_key f xs)) \<longleftrightarrow> distinct (map f xs)"
  by (induction xs) (auto simp: distinct_map_insort_key)

lemma sorted_valid_starts: "sorted (valid_starts S T K)" "distinct (valid_starts S T K)"
  by (simp_all add: valid_starts_def sorted_filter [where f = "\<lambda>x. x", simplified])

lemma start_window_match [simp]: "start (window_match S T i) = i"
  by (simp add: window_match_def)

text \<open>
  A list of window matches whose starts are sorted, distinct and exactly the valid starts
  is the list of the valid windows in increasing order.
\<close>

lemma window_matches_unique:
  assumes "set ms \<subseteq> range (window_match S T)"
    and "sorted (map start ms)" "distinct (map start ms)"
    and "start ` set ms = set (valid_starts S T K)"
  shows "ms = map (window_match S T) (valid_starts S T K)"
proof -
  have "map start ms = valid_starts S T K"
    using assms(2-4) sorted_valid_starts [of S T K]
    by (intro sorted_distinct_set_unique) simp_all
  moreover have "map (window_match S T) (map start ms) = ms"
    using assms(1) by (induction ms) auto
  ultimately show ?thesis by simp
qed

lemma ngrams_eq_reference:
  assumes K: "0 \<le> K" and KL: "K < int (length S)"
  shows "find_near_matches_substitutions_ngrams S T K =
           Inr (map (window_match S T) (valid_starts S T K))"
proof -
  from raw_ngrams_set [OF K KL, of T] obtain raw where
    raw: "raw_find_near_matches_substitutions_ngrams S T K = Inr raw"
    and set_raw: "set raw = window_match S T ` set (valid_starts S T K)" by blast
  let ?kept = "snd (fold keep_first raw ({}, []))"
  let ?res = "sort_key start ?kept"
  have res: "find_near_matches_substitutions_ngrams S T K = Inr ?res"
    by (simp add: find_near_matches_substitutions_ngrams_def raw)
  have sub: "set ?kept \<subseteq> set raw"
    using dedup_properties(3) [of _ raw] find_Some_mem by fastforce
  have 1: "set ?res \<subseteq> range (window_match S T)"
    using sub set_raw by auto
  have 2: "sorted (map start ?res)" by (rule sorted_sort_key)
  have 3: "distinct (map start ?res)"
    by (simp add: distinct_map_sort_key dedup_properties(1))
  have "start ` set ?res = start ` set raw"
    by (simp add: dedup_properties(2))
  also have "\<dots> = set (valid_starts S T K)"
    unfolding set_raw by (simp add: image_image)
  finally have 4: "start ` set ?res = set (valid_starts S T K)" .
  show ?thesis
    unfolding res using window_matches_unique [OF 1 2 3 4] by simp
qed

subsection \<open>The ring counter\<close>

lemma fold_char_indexes:
  "fold (\<lambda>(index, char) m. m(char := m char @ [index])) ps m0 c =
     m0 c @ map fst (filter (\<lambda>p. snd p = c) ps)"
  by (induction ps arbitrary: m0) (auto simp: fun_upd_def)

lemma char_indexes_in_subsequence_eq:
  "char_indexes_in_subsequence S c = map fst (filter (\<lambda>p. snd p = c) (enumerate 0 S))"
  by (simp add: char_indexes_in_subsequence_def fold_char_indexes)

lemma distinct_char_indexes: "distinct (char_indexes_in_subsequence S c)"
  unfolding char_indexes_in_subsequence_eq
  by (rule distinct_map_filter) (simp add: map_fst_enumerate)

lemma set_char_indexes:
  "set (char_indexes_in_subsequence S c) = {j. j < length S \<and> S ! j = c}"
  unfolding char_indexes_in_subsequence_eq
  by (auto simp: in_set_enumerate_eq image_iff)

lemma inc_candidates_eq:
  "distinct js \<Longrightarrow> \<forall>j \<in> set js. j < length c \<Longrightarrow>
   inc_candidates c js = Inr (map (\<lambda>j. c ! j + (if j \<in> set js then 1 else 0)) [0 ..< length c])"
proof (induction js arbitrary: c)
  case Nil
  then show ?case by (simp add: map_nth)
next
  case (Cons j js)
  let ?c = "c[j := c ! j + 1]"
  have "inc_candidates c (j # js) = inc_candidates ?c js"
    using Cons.prems by simp
  also have "\<dots> = Inr (map (\<lambda>k. ?c ! k + (if k \<in> set js then 1 else 0)) [0 ..< length ?c])"
    using Cons.prems by (intro Cons.IH) simp_all
  also have "map (\<lambda>k. ?c ! k + (if k \<in> set js then 1 else 0)) [0 ..< length ?c] =
             map (\<lambda>k. c ! k + (if k \<in> set (j # js) then 1 else 0)) [0 ..< length c]"
    using Cons.prems by (auto simp: nth_list_update)
  finally show ?case .
qed

lemma matched_0 [simp]: "matched S T s 0 = 0"
  by (simp add: matched_def)

lemma matched_Suc:
  assumes "j < length S" "s + j < length T"
  shows "matched S T s (Suc j) = matched S T s j + (if S ! j = T ! (s + j) then 1 else 0)"
proof -
  have "take (Suc j) S = take j S @ [S ! j]"
    using assms by (simp add: take_Suc_conv_app_nth)
  moreover have "take (Suc j) (drop s T) = take j (drop s T) @ [T ! (s + j)]"
    using assms by (simp add: take_Suc_conv_app_nth)
  moreover have "length (take j S) = length (take j (drop s T))"
    using assms by simp
  ultimately show ?thesis
    by (simp add: matched_def count_mismatches_append)
qed

lemma matched_full:
  "s + length S \<le> length T \<Longrightarrow> int (length S) - matched S T s (length S) = window_dist S T (int s)"
  by (simp add: matched_def window_dist_nat)

lemma counters_0: "S \<noteq> [] \<Longrightarrow> counters S T 0 = [0]"
  by (cases S) (simp_all add: counters_def)

lemma length_counters [simp]: "length (counters S T i) = min (Suc i) (length S)"
  by (simp add: counters_def)

text \<open>Reading the item at index \<open>i\<close> credits every counter whose position agrees with it.\<close>

lemma inc_counters:
  assumes i: "i < length T"
  shows "inc_candidates (counters S T i)
           (filter (\<lambda>j. j \<le> i) (char_indexes_in_subsequence S (T ! i))) =
         Inr (map (\<lambda>j. matched S T (i - j) (Suc j)) [0 ..< min (Suc i) (length S)])"
proof -
  let ?js = "filter (\<lambda>j. j \<le> i) (char_indexes_in_subsequence S (T ! i))"
  have d: "distinct ?js" by (simp add: distinct_char_indexes)
  have b: "\<forall>j \<in> set ?js. j < length (counters S T i)"
    by (auto simp: set_char_indexes)
  have "map (\<lambda>j. counters S T i ! j + (if j \<in> set ?js then 1 else 0))
          [0 ..< length (counters S T i)] =
        map (\<lambda>j. matched S T (i - j) (Suc j)) [0 ..< min (Suc i) (length S)]"
  proof (rule nth_equalityI)
    show "length (map (\<lambda>j. counters S T i ! j + (if j \<in> set ?js then 1 else 0))
            [0 ..< length (counters S T i)]) =
          length (map (\<lambda>j. matched S T (i - j) (Suc j)) [0 ..< min (Suc i) (length S)])"
      by simp
  next
    fix k assume "k < length (map (\<lambda>j. counters S T i ! j + (if j \<in> set ?js then 1 else 0))
            [0 ..< length (counters S T i)])"
    then have k: "k \<le> i" "k < length S" by simp_all
    have c: "counters S T i ! k = matched S T (i - k) k"
      using k by (simp add: counters_def)
    have m: "matched S T (i - k) (Suc k) =
             matched S T (i - k) k + (if S ! k = T ! i then 1 else 0)"
      using matched_Suc [of k S "i - k" T] k i by simp
    show "map (\<lambda>j. counters S T i ! j + (if j \<in> set ?js then 1 else 0))
            [0 ..< length (counters S T i)] ! k =
          map (\<lambda>j. matched S T (i - j) (Suc j)) [0 ..< min (Suc i) (length S)] ! k"
      using k c m by (simp add: set_char_indexes)
  qed
  then show ?thesis
    using inc_candidates_eq [OF d b] by simp
qed

text \<open>Shifting the credited counters by one gives the counters of the next index.\<close>

lemma shift_counters:
  assumes "S \<noteq> []"
  shows "take (length S) (0 # map (\<lambda>j. matched S T (i - j) (Suc j)) [0 ..< min (Suc i) (length S)]) =
         counters S T (Suc i)"
proof (rule nth_equalityI)
  show "length (take (length S) (0 # map (\<lambda>j. matched S T (i - j) (Suc j))
          [0 ..< min (Suc i) (length S)])) = length (counters S T (Suc i))"
    using assms by (cases S) (auto simp: min_def)
next
  fix k assume "k < length (take (length S) (0 # map (\<lambda>j. matched S T (i - j) (Suc j))
          [0 ..< min (Suc i) (length S)]))"
  then have k: "k < length S" "k \<le> Suc i" by (auto simp: min_def split: if_splits)
  show "take (length S) (0 # map (\<lambda>j. matched S T (i - j) (Suc j))
          [0 ..< min (Suc i) (length S)]) ! k = counters S T (Suc i) ! k"
  proof (cases k)
    case 0
    then show ?thesis using k by (simp add: counters_def)
  next
    case (Suc j)
    then show ?thesis using k by (simp add: counters_def)
  qed
qed

lemma drop_enumerate_Cons:
  "i < length T \<Longrightarrow> drop i (enumerate 0 T) = (i, T ! i) # drop (Suc i) (enumerate 0 T)"
  using Cons_nth_drop_Suc [of i "enumerate 0 T"] by (simp add: nth_enumerate_eq)

lemma warm_up_counters:
  assumes S: "S \<noteq> []"
  shows "n < length S \<Longrightarrow> n \<le> length T \<Longrightarrow> i \<le> n \<Longrightarrow>
         warm_up (char_indexes_in_subsequence S) (length S) (counters S T i)
           (drop i (take n (enumerate 0 T))) = Inr (counters S T n)"
proof (induction "n - i" arbitrary: i)
  case 0
  then show ?case by simp
next
  case (Suc d)
  have i: "i < n" "i < length T" "Suc i < length S" using Suc.hyps(2) Suc.prems by simp_all
  have split: "drop i (take n (enumerate 0 T)) =
               (i, T ! i) # drop (Suc i) (take n (enumerate 0 T))"
    using i Cons_nth_drop_Suc [of i "take n (enumerate 0 T)"] by (simp add: nth_enumerate_eq)
  have IH: "warm_up (char_indexes_in_subsequence S) (length S) (counters S T (Suc i))
              (drop (Suc i) (take n (enumerate 0 T))) = Inr (counters S T n)"
    using Suc.hyps Suc.prems i by (intro Suc.hyps(1)) simp_all
  show ?case
    unfolding split using IH
    by (simp add: inc_counters [OF i(2)] appendleft_def shift_counters [OF S])
qed

lemma upt_int_upto: "map int [0 ..< n] = [0 .. int n - 1]"
proof (induction n)
  case 0
  then show ?case by simp
next
  case (Suc n)
  have "[0 .. int (Suc n) - 1] = [0 .. int n - 1] @ [int n]"
    using upto_rec2 [of 0 "int n"] by simp
  then show ?case using Suc by simp
qed

lemma nat_reference_all:
  "nat_reference S T K 0 (Suc (length T) - length S) = map (window_match S T) (valid_starts S T K)"
proof -
  have "int (Suc (length T) - length S) - 1 = int (length T) - int (length S) \<or>
        (Suc (length T) - length S = 0 \<and> int (length T) - int (length S) < 0)"
    by linarith
  then have "[0 .. int (length T) - int (length S)] = map int [0 ..< Suc (length T) - length S]"
    unfolding upt_int_upto by auto
  then show ?thesis
    by (simp add: nat_reference_def valid_starts_def filter_map comp_def)
qed

lemma steady_counters:
  assumes S: "S \<noteq> []"
  shows "length S \<le> Suc i \<Longrightarrow> i \<le> length T \<Longrightarrow>
         steady (char_indexes_in_subsequence S) (length S) K (counters S T i)
           (drop i (enumerate 0 T)) =
         Inr (nat_reference S T K (Suc i - length S) (Suc (length T) - length S))"
proof (induction "length T - i" arbitrary: i)
  case 0
  then show ?case by (simp add: nat_reference_def)
next
  case (Suc d)
  let ?L = "length S"
  let ?s = "Suc i - ?L"
  let ?c1 = "map (\<lambda>j. matched S T (i - j) (Suc j)) [0 ..< min (Suc i) ?L]"
  have i: "i < length T" using Suc.hyps(2) by simp
  have L: "0 < ?L" "?L \<le> Suc i" using S Suc.prems by simp_all
  have all: "filter (\<lambda>j. j \<le> i) (char_indexes_in_subsequence S (T ! i)) =
             char_indexes_in_subsequence S (T ! i)"
    using L by (auto simp: filter_id_conv set_char_indexes)
  have inc: "inc_candidates (counters S T i) (char_indexes_in_subsequence S (T ! i)) = Inr ?c1"
    using inc_counters [OF i, of S] unfolding all .
  have len: "length ?c1 = ?L" using L by simp
  then have ne: "?c1 \<noteq> []" using L by auto
  have last: "last ?c1 = matched S T ?s ?L"
  proof -
    have "last ?c1 = ?c1 ! (?L - 1)" using ne len by (simp add: last_conv_nth)
    also have "\<dots> = matched S T (i - (?L - 1)) (Suc (?L - 1))"
      using L by (subst nth_map) simp_all
    also have "\<dots> = matched S T ?s ?L"
    proof -
      have "i - (?L - 1) = ?s" "Suc (?L - 1) = ?L" using L by linarith+
      then show ?thesis by simp
    qed
    finally show ?thesis .
  qed
  have "take ?L (0 # ?c1) = 0 # butlast ?c1"
    using len ne by (simp add: butlast_conv_take take_Cons')
  then have next_c: "0 # butlast ?c1 = counters S T (Suc i)"
    using shift_counters [OF S, of T i] by simp
  have fit: "?s + ?L \<le> length T" using i L by simp
  have n: "int ?L - matched S T ?s ?L = window_dist S T (int ?s)"
    by (rule matched_full [OF fit])
  have m: "\<lparr>start = int i - (int ?L - 1), end_index = int i + 1,
            dist = window_dist S T (int ?s)\<rparr> = window_match S T (int ?s)"
    using L by (simp add: window_match_def of_nat_diff)
  have IH: "steady (char_indexes_in_subsequence S) ?L K (counters S T (Suc i))
              (drop (Suc i) (enumerate 0 T)) =
            Inr (nat_reference S T K (Suc ?s) (Suc (length T) - ?L))"
    using Suc.hyps(1) [of "Suc i"] Suc.hyps(2) i L by (simp add: Suc_diff_le)
  have range: "[?s ..< Suc (length T) - ?L] = ?s # [Suc ?s ..< Suc (length T) - ?L]"
    using i L by (intro upt_conv_Cons) linarith
  show ?case
    unfolding drop_enumerate_Cons [OF i]
    using ne by (simp add: inc rotate_right_def last n m next_c IH nat_reference_def range)
qed

lemma linear_eq_reference:
  assumes S: "S \<noteq> []"
  shows "find_near_matches_substitutions_linear_programming S T K =
           Inr (map (window_match S T) (valid_starts S T K))"
proof -
  let ?L = "length S"
  let ?idx = "char_indexes_in_subsequence S"
  define n where "n = min (?L - 1) (length T)"
  have "0 < ?L" using S by simp
  then have n: "n < ?L" "n \<le> length T" unfolding n_def by linarith+
  have tk: "take (?L - 1) (enumerate 0 T) = take n (enumerate 0 T)"
    by (simp add: n_def min_def)
  have warm: "warm_up ?idx ?L [0] (take (?L - 1) (enumerate 0 T)) = Inr (counters S T n)"
  proof -
    have "warm_up ?idx ?L [0] (take n (enumerate 0 T)) = Inr (counters S T n)"
      using warm_up_counters [OF S n, of 0] by (simp add: counters_0 [OF S])
    then show ?thesis unfolding tk .
  qed
  have "steady ?idx ?L K (counters S T n) (drop (?L - 1) (enumerate 0 T)) =
          Inr (nat_reference S T K 0 (Suc (length T) - ?L))"
  proof (cases "?L - 1 \<le> length T")
    case True
    then have "n = ?L - 1" by (simp add: n_def)
    then show ?thesis
      using steady_counters [OF S, of n T K] True S by simp
  next
    case False
    then show ?thesis by (simp add: nat_reference_def)
  qed
  then show ?thesis
    unfolding find_near_matches_substitutions_linear_programming_def Let_def warm
    using S by (simp add: nat_reference_all del: One_nat_def)
qed

subsection \<open>The dispatcher and the extremes of the budget\<close>

lemma exact_eq_reference:
  assumes S: "S \<noteq> []"
  shows "map (\<lambda>s. \<lparr>start = s, end_index = s + int (length S), dist = 0\<rparr>)
           (search_exact S T 0 (int (length T))) =
         map (window_match S T) (valid_starts S T 0)"
proof -
  have iff: "py_slice T i (i + int (length S)) = S \<longleftrightarrow> window_dist S T i \<le> 0"
    if "i \<in> set [0 .. int (length T) - int (length S)]" for i
  proof -
    have i: "0 \<le> i" "nat i + length S \<le> length T" using that by auto
    have len: "length (py_slice T i (i + int (length S))) = length S"
      using i by (simp add: py_slice_nonneg)
    show ?thesis
      using count_mismatches_zero_iff [of S "py_slice T i (i + int (length S))"] len
        count_mismatches_nonneg [of S "py_slice T i (i + int (length S))"]
      unfolding window_dist_def by auto
  qed
  have f: "search_exact S T 0 (int (length T)) = valid_starts S T 0"
    unfolding search_exact_def valid_starts_def
    using iff by (intro filter_cong) simp_all
  have "\<lparr>start = s, end_index = s + int (length S), dist = 0\<rparr> = window_match S T s"
    if "s \<in> set (valid_starts S T 0)" for s
    using that count_mismatches_nonneg [of S "py_slice T s (s + int (length S))"]
    by (simp add: set_valid_starts window_match_def window_dist_def)
  then show ?thesis unfolding f by (intro map_cong) simp_all
qed

lemma dispatcher_eq_reference:
  assumes S: "S \<noteq> []" and K: "0 \<le> K"
  shows "find_near_matches_substitutions S T K =
           Inr (map (window_match S T) (valid_starts S T K))"
proof (cases "K = 0")
  case True
  then show ?thesis
    using S exact_eq_reference [OF S, of T]
    by (simp add: find_near_matches_substitutions_def)
next
  case False
  then have Kpos: "0 < K" using K by simp
  show ?thesis
  proof (cases "3 \<le> int (length S) div (K + 1)")
    case True
    have "K < int (length S)"
    proof (rule ccontr)
      assume "\<not> K < int (length S)"
      then have "int (length S) div (K + 1) = 0" by (simp add: div_pos_pos_trivial)
      then show False using True by simp
    qed
    then show ?thesis
      using S Kpos True ngrams_eq_reference [OF K, of S T]
      by (simp add: find_near_matches_substitutions_def py_floordiv_def)
  next
    case False
    then show ?thesis
      using S Kpos linear_eq_reference [OF S, of T K]
      by (simp add: find_near_matches_substitutions_def py_floordiv_def)
  qed
qed

lemma has_near_match_eq_reference:
  assumes K: "0 \<le> K" and KL: "K < int (length S)"
  shows "has_near_match_substitutions_ngrams S T K = Inr (valid_starts S T K \<noteq> [])"
proof -
  from raw_ngrams_set [OF K KL, of T] obtain raw where
    raw: "raw_find_near_matches_substitutions_ngrams S T K = Inr raw"
    and set_raw: "set raw = window_match S T ` set (valid_starts S T K)" by blast
  have "raw \<noteq> [] \<longleftrightarrow> valid_starts S T K \<noteq> []"
    using set_raw by (metis image_is_empty set_empty)
  then show ?thesis
    by (cases raw) (simp_all add: has_near_match_substitutions_ngrams_def raw)
qed

lemma window_match_fields:
  "start (window_match S T i) = i"
  "end_index (window_match S T i) = i + int (length S)"
  "dist (window_match S T i) = window_dist S T i"
  by (simp_all add: window_match_def)

lemma valid_starts_negative: "K < 0 \<Longrightarrow> valid_starts S T K = []"
  using count_mismatches_nonneg [of S]
  by (auto simp: valid_starts_def window_dist_def filter_empty_conv not_le intro: less_le_trans)


lemma valid_starts_all:
  "int (length S) \<le> K \<Longrightarrow> valid_starts S T K = [0 .. int (length T) - int (length S)]"
  unfolding valid_starts_def window_dist_def
  using count_mismatches_le_length [of S] by (auto simp: filter_id_conv intro: order_trans)

lemma ngram_starts_negative:
  assumes "S \<noteq> []" "K < - 1"
  shows "ngram_starts S K = Inr (int (length S) div (K + 1), [])"
proof -
  let ?L = "int (length S)" and ?g = "int (length S) div (K + 1)"
  have L: "0 < ?L" using assms by simp
  have g: "?g < 0" using L assms(2) by (simp add: neg_imp_zdiv_neg_iff)
  have "(0 - (?L - ?g + 1) - ?g - 1) div (- ?g) < 0"
    using L g by (intro div_neg_pos_less0) simp_all
  then have "nat ((0 - (?L - ?g + 1) - ?g - 1) div (- ?g)) = 0" by simp
  then show ?thesis
    using g assms(2) by (simp add: ngram_starts_def py_floordiv_def py_range_def Let_def)
qed

subsection \<open>Valid windows are well formed\<close>

lemma match_ok_window_match:
  "i \<in> set (valid_starts S T K) \<Longrightarrow> match_ok S T K (window_match S T i)"
  by (simp add: set_valid_starts match_ok_def window_match_def window_dist_def)

lemma valid_starts_set_explicit:
  "set (valid_starts S T K) =
     {i. 0 \<le> i \<and> i \<le> int (length T) - int (length S) \<and>
         count_mismatches S (py_slice T i (i + int (length S))) \<le> K}"
  by (auto simp: set_valid_starts window_dist_def)

section \<open>The claims\<close>

text \<open>
  C1. For a non-empty subsequence \<open>S\<close>, a sequence \<open>T\<close> and a budget \<open>K \<ge> 0\<close>, the
  dispatcher returns matches whose starts are exactly the window starts \<open>i\<close> with
  \<open>0 \<le> i \<le> len(T) - len(S)\<close> at which \<open>S\<close> and \<open>T[i:i+len(S)]\<close> differ in at most
  \<open>K\<close> positions.
\<close>

theorem find_near_matches_substitutions_complete:
  assumes "S \<noteq> []" and "0 \<le> K"
  shows "\<exists>ms. find_near_matches_substitutions S T K = Inr ms \<and>
           start ` set ms =
             {i. 0 \<le> i \<and> i \<le> int (length T) - int (length S) \<and>
                 count_mismatches S (py_slice T i (i + int (length S))) \<le> K}"
  unfolding dispatcher_eq_reference [OF assms] valid_starts_set_explicit [symmetric]
  by (simp add: image_image)

theorem find_near_matches_substitutions_complete_witness:
  "''abc'' \<noteq> [] \<and> (0::int) \<le> 1 \<and>
   (\<exists>ms. find_near_matches_substitutions ''abc'' ''xabcaxc'' 1 = Inr ms \<and>
      start ` set ms =
        {i. 0 \<le> i \<and> i \<le> int (length ''xabcaxc'') - int (length ''abc'') \<and>
            count_mismatches ''abc'' (py_slice ''xabcaxc'' i (i + int (length ''abc''))) \<le> 1})"
proof -
  have h1: "''abc'' \<noteq> []" by simp
  have h2: "(0::int) \<le> 1" by simp
  from find_near_matches_substitutions_complete [OF h1 h2, of "''xabcaxc''"] h1 h2
  show ?thesis by blast
qed

text \<open>
  C2. For a non-empty \<open>S\<close> and \<open>K \<ge> 0\<close> with \<open>len(S) \<ge> K + 1\<close>, the ring-counter
  matcher and the ngram generator yield the same set of \<open>(start, dist)\<close> pairs.
\<close>

theorem linear_and_ngrams_agree:
  assumes "S \<noteq> []" and "0 \<le> K" and "K + 1 \<le> int (length S)"
  shows "\<exists>xs ys.
           find_near_matches_substitutions_linear_programming S T K = Inr xs \<and>
           raw_find_near_matches_substitutions_ngrams S T K = Inr ys \<and>
           (\<lambda>m. (start m, dist m)) ` set xs = (\<lambda>m. (start m, dist m)) ` set ys"
proof -
  have KL: "K < int (length S)" using assms(3) by simp
  from raw_ngrams_set [OF assms(2) KL, of T] obtain ys where
    ys: "raw_find_near_matches_substitutions_ngrams S T K = Inr ys"
    "set ys = window_match S T ` set (valid_starts S T K)" by blast
  show ?thesis
    using ys by (simp add: linear_eq_reference [OF assms(1)])
qed

theorem linear_and_ngrams_agree_witness:
  "''abc'' \<noteq> [] \<and> (0::int) \<le> 1 \<and> (1::int) + 1 \<le> int (length ''abc'') \<and>
   (\<exists>xs ys.
      find_near_matches_substitutions_linear_programming ''abc'' ''xabcaxc'' 1 = Inr xs \<and>
      raw_find_near_matches_substitutions_ngrams ''abc'' ''xabcaxc'' 1 = Inr ys \<and>
      (\<lambda>m. (start m, dist m)) ` set xs = (\<lambda>m. (start m, dist m)) ` set ys)"
proof -
  have h1: "''abc'' \<noteq> []" by simp
  have h2: "(0::int) \<le> 1" by simp
  have h3: "(1::int) + 1 \<le> int (length ''abc'')" by simp
  from linear_and_ngrams_agree [OF h1 h2 h3, of "''xabcaxc''"] h1 h2 h3
  show ?thesis by blast
qed

text \<open>
  C3, as amended. For \<open>K \<ge> 0\<close> and a fragment length \<open>g = len(S) // (K + 1) \<ge> 1\<close>, the
  fragment loop carves the fragments that start at \<open>0, g, 2g, \<dots>\<close> while
  \<open>f + g \<le> len(S)\<close>: there are \<open>len(S) // g\<close> of them, which is at least \<open>K + 1\<close>, and
  exactly \<open>K + 1\<close> when \<open>len(S)\<close> is an exact multiple of \<open>K + 1\<close>.
\<close>

theorem ngram_fragment_count:
  assumes "0 \<le> K" and "1 \<le> int (length S) div (K + 1)"
  shows "\<exists>starts.
           ngram_starts S K = Inr (int (length S) div (K + 1), starts) \<and>
           starts = map (\<lambda>k. int k * (int (length S) div (K + 1)))
                      [0 ..< nat (int (length S) div (int (length S) div (K + 1)))] \<and>
           list_all (\<lambda>f. 0 \<le> f \<and> f + int (length S) div (K + 1) \<le> int (length S)) starts \<and>
           K + 1 \<le> int (length starts) \<and>
           ((K + 1) dvd int (length S) \<longrightarrow> int (length starts) = K + 1)"
proof -
  let ?L = "int (length S)"
  let ?g = "?L div (K + 1)"
  have KL: "K < ?L"
  proof (rule ccontr)
    assume "\<not> K < ?L"
    then have "?g = 0" by (simp add: div_pos_pos_trivial)
    then show False using assms(2) by simp
  qed
  have g: "0 < ?g" using assms(2) by simp
  have cnt: "0 \<le> ?L div ?g" using g by (simp add: pos_imp_zdiv_nonneg_iff)
  have fits: "int k * ?g + ?g \<le> ?L" if "k < nat (?L div ?g)" for k
  proof -
    have "int k + 1 \<le> ?L div ?g" using that by linarith
    then have "(int k + 1) * ?g \<le> (?L div ?g) * ?g" using g by (intro mult_right_mono) simp_all
    also have "\<dots> \<le> ?L"
      using mult_div_mod_eq [of ?g ?L] pos_mod_sign [OF g, of ?L]
      unfolding mult.commute [of "?L div ?g" ?g] by linarith
    finally show ?thesis by (simp add: algebra_simps)
  qed
  have exact: "?L div ?g = K + 1" if "(K + 1) dvd ?L"
  proof -
    from that obtain q where q: "?L = (K + 1) * q" by (elim dvdE)
    have "?g = q" using assms(1) by (simp add: q)
    then show ?thesis using g by (simp add: q)
  qed
  show ?thesis
    using ngram_starts_pos [OF assms(1) KL] fragments_at_least [OF assms(1) KL] cnt g fits exact
      assms(1)
    by (simp add: list_all_iff)
qed

theorem ngram_fragment_count_witness:
  "(0::int) \<le> 2 \<and> 1 \<le> int (length ''abcdefg'') div (2 + 1) \<and>
   ngram_starts ''abcdefg'' 2 = Inr (2, [0, 2, 4]) \<and>
   (2::int) + 1 \<le> int (length [0, 2, 4 :: int]) \<and>
   \<not> (2 + 1) dvd int (length ''abcdefg'') \<and>
   ngram_starts ''abcdef'' 2 = Inr (2, [0, 2, 4]) \<and>
   (2 + 1) dvd int (length ''abcdef'') \<and> int (length [0, 2, 4 :: int]) = 2 + 1"
proof -
  have h1: "(0::int) \<le> 2" by simp
  have h2: "1 \<le> int (length ''abcdefg'') div (2 + 1)" by simp
  have h3: "1 \<le> int (length ''abcdef'') div (2 + 1)" by simp
  from ngram_fragment_count [OF h1 h2] ngram_fragment_count [OF h1 h3]
  show ?thesis by (simp add: upt_rec)
qed

theorem ngram_fragment_count_counterexample:
  "int (length ''abcd'') div (2 + 1) = 1 \<and> (1::int) dvd int (length ''abcd'') \<and>
   ngram_starts ''abcd'' 2 = Inr (1, [0, 1, 2, 3]) \<and>
   \<not> int (length [0, 1, 2, 3 :: int]) \<le> 2 + 1 \<and>
   int (length [0, 1, 2, 3 :: int]) \<noteq> 2 + 1"
  by (simp add: ngram_starts_def py_floordiv_def py_range_def upt_rec)

lemma raw_ngrams_negative:
  assumes "S \<noteq> []" "K < - 1"
  shows "raw_find_near_matches_substitutions_ngrams S T K = Inr []"
  by (simp add: raw_find_near_matches_substitutions_ngrams_def ngram_starts_negative [OF assms])

text \<open>
  C4, as amended. Only the dispatcher validates the budget: with a non-empty subsequence
  and \<open>max_substitutions < 0\<close> it fails with \<open>NegativeBudget\<close> and returns nothing. The
  ring-counter matcher has no budget check and returns the empty result; the ngram entry
  points have none either and return the empty result (\<open>False\<close>) for
  \<open>max_substitutions < -1\<close>.
\<close>

theorem negative_budget:
  assumes "S \<noteq> []" and "K < 0"
  shows "find_near_matches_substitutions S T K = Inl NegativeBudget \<and>
         find_near_matches_substitutions_linear_programming S T K = Inr [] \<and>
         (K < - 1 \<longrightarrow>
            find_near_matches_substitutions_ngrams S T K = Inr [] \<and>
            has_near_match_substitutions_ngrams S T K = Inr False)"
proof -
  have "find_near_matches_substitutions S T K = Inl NegativeBudget"
    using assms by (simp add: find_near_matches_substitutions_def)
  moreover have "find_near_matches_substitutions_linear_programming S T K = Inr []"
    by (simp add: linear_eq_reference [OF assms(1)] valid_starts_negative [OF assms(2)])
  moreover have "find_near_matches_substitutions_ngrams S T K = Inr []" if "K < - 1"
    by (simp add: find_near_matches_substitutions_ngrams_def
        raw_ngrams_negative [OF assms(1) that])
  moreover have "has_near_match_substitutions_ngrams S T K = Inr False" if "K < - 1"
    by (simp add: has_near_match_substitutions_ngrams_def
        raw_ngrams_negative [OF assms(1) that])
  ultimately show ?thesis by simp
qed

theorem negative_budget_witness:
  "''abc'' \<noteq> [] \<and> (- 2 :: int) < 0 \<and> (- 2 :: int) < - 1 \<and>
   find_near_matches_substitutions ''abc'' ''abc'' (- 2) = Inl NegativeBudget \<and>
   find_near_matches_substitutions_linear_programming ''abc'' ''abc'' (- 2) = Inr [] \<and>
   find_near_matches_substitutions_ngrams ''abc'' ''abc'' (- 2) = Inr [] \<and>
   has_near_match_substitutions_ngrams ''abc'' ''abc'' (- 2) = Inr False"
proof -
  have h1: "''abc'' \<noteq> []" by simp
  have h2: "(- 2 :: int) < 0" by simp
  have h3: "(- 2 :: int) < - 1" by simp
  from negative_budget [OF h1 h2, of "''abc''"] h1 h2 h3
  show ?thesis by blast
qed

theorem negative_budget_counterexample:
  "find_near_matches_substitutions_linear_programming ''a'' ''a'' (- 1) = Inr []"
  by code_simp

text \<open>
  C5, as amended. Every entry point rejects an empty subsequence with a \<open>ValueError\<close>
  that does not depend on the sequence: the dispatcher and the ring-counter matcher with
  \<open>EmptySubsequence\<close>, the two ngram entry points, which have no check of their own, with
  \<open>BudgetExceedsLength\<close> from the check of the fragment length (for a budget other than
  \<open>-1\<close>).
\<close>

theorem empty_subsequence:
  "find_near_matches_substitutions [] T K = Inl EmptySubsequence \<and>
   find_near_matches_substitutions_linear_programming [] T K = Inl EmptySubsequence \<and>
   (K \<noteq> - 1 \<longrightarrow>
      find_near_matches_substitutions_ngrams [] T K = Inl BudgetExceedsLength \<and>
      has_near_match_substitutions_ngrams [] T K = Inl BudgetExceedsLength)"
  by (simp add: find_near_matches_substitutions_def
      find_near_matches_substitutions_linear_programming_def
      find_near_matches_substitutions_ngrams_def has_near_match_substitutions_ngrams_def
      raw_find_near_matches_substitutions_ngrams_def ngram_starts_def py_floordiv_def)

theorem empty_subsequence_witness:
  "find_near_matches_substitutions [] ''abc'' 0 = Inl EmptySubsequence \<and>
   find_near_matches_substitutions_linear_programming [] ''abc'' 0 = Inl EmptySubsequence \<and>
   (0::int) \<noteq> - 1 \<and>
   find_near_matches_substitutions_ngrams [] ''abc'' 0 = Inl BudgetExceedsLength \<and>
   has_near_match_substitutions_ngrams [] ''abc'' 0 = Inl BudgetExceedsLength"
proof -
  have h: "(0::int) \<noteq> - 1" by simp
  from empty_subsequence [of "''abc''" 0] h show ?thesis by blast
qed

theorem empty_subsequence_counterexample:
  "find_near_matches_substitutions_ngrams [] ''abc'' 0 = Inl BudgetExceedsLength \<and>
   BudgetExceedsLength \<noteq> EmptySubsequence"
  by (simp add: find_near_matches_substitutions_ngrams_def
      raw_find_near_matches_substitutions_ngrams_def ngram_starts_def py_floordiv_def
      BudgetExceedsLength_def EmptySubsequence_def)

text \<open>
  C6. For a non-empty \<open>S\<close> and \<open>K \<ge> 0\<close> (and \<open>len(S) > K\<close> for the ngram matcher), every
  match returned by the dispatcher, the ring-counter matcher, the ngram generator and the
  ngram entry point satisfies \<open>0 \<le> start \<le> end \<le> len(T)\<close>, \<open>end - start = len(S)\<close>,
  \<open>dist\<close> is the mismatch count between \<open>S\<close> and \<open>T[start:end]\<close>, and \<open>dist \<le> K\<close>.
\<close>

theorem matches_well_formed:
  assumes "S \<noteq> []" and "0 \<le> K"
  shows "(\<exists>ms. find_near_matches_substitutions S T K = Inr ms \<and> list_all (match_ok S T K) ms) \<and>
         (\<exists>ms. find_near_matches_substitutions_linear_programming S T K = Inr ms \<and>
               list_all (match_ok S T K) ms) \<and>
         (K < int (length S) \<longrightarrow>
            (\<exists>ms. raw_find_near_matches_substitutions_ngrams S T K = Inr ms \<and>
                  list_all (match_ok S T K) ms) \<and>
            (\<exists>ms. find_near_matches_substitutions_ngrams S T K = Inr ms \<and>
                  list_all (match_ok S T K) ms))"
proof -
  have ref: "list_all (match_ok S T K) (map (window_match S T) (valid_starts S T K))"
    by (simp add: list_all_iff match_ok_window_match)
  have raw: "\<exists>ms. raw_find_near_matches_substitutions_ngrams S T K = Inr ms \<and>
                  list_all (match_ok S T K) ms" if KL: "K < int (length S)"
  proof -
    from raw_ngrams_set [OF assms(2) KL, of T] obtain ms where
      ms: "raw_find_near_matches_substitutions_ngrams S T K = Inr ms"
      "set ms = window_match S T ` set (valid_starts S T K)" by blast
    then show ?thesis by (auto simp: list_all_iff match_ok_window_match)
  qed
  show ?thesis
    using ref raw
    by (simp add: dispatcher_eq_reference [OF assms] linear_eq_reference [OF assms(1)]
        ngrams_eq_reference [OF assms(2)])
qed

theorem matches_well_formed_witness:
  "''abc'' \<noteq> [] \<and> (0::int) \<le> 1 \<and> 1 < int (length ''abc'') \<and>
   (\<exists>ms. find_near_matches_substitutions ''abc'' ''xabcaxc'' 1 = Inr ms \<and>
      list_all (match_ok ''abc'' ''xabcaxc'' 1) ms) \<and>
   (\<exists>ms. find_near_matches_substitutions_linear_programming ''abc'' ''xabcaxc'' 1 = Inr ms \<and>
      list_all (match_ok ''abc'' ''xabcaxc'' 1) ms) \<and>
   (\<exists>ms. raw_find_near_matches_substitutions_ngrams ''abc'' ''xabcaxc'' 1 = Inr ms \<and>
      list_all (match_ok ''abc'' ''xabcaxc'' 1) ms) \<and>
   (\<exists>ms. find_near_matches_substitutions_ngrams ''abc'' ''xabcaxc'' 1 = Inr ms \<and>
      list_all (match_ok ''abc'' ''xabcaxc'' 1) ms)"
proof -
  have h1: "''abc'' \<noteq> []" by simp
  have h2: "(0::int) \<le> 1" by simp
  have h3: "1 < int (length ''abc'')" by simp
  from matches_well_formed [OF h1 h2, of "''xabcaxc''"] h1 h2 h3
  show ?thesis by blast
qed

text \<open>
  C7. For a non-empty \<open>S\<close> and \<open>len(S) > K \<ge> 0\<close>, the list returned by
  \<open>find_near_matches_substitutions_ngrams\<close> has no two matches with the same start, is
  sorted by start, has the starts of the generator's output, and holds for each start the
  first match the generator yields with it; two matches of the generator with the same
  start are equal.
\<close>

theorem ngrams_deduplicated_sorted:
  assumes "S \<noteq> []" and "0 \<le> K" and "K < int (length S)"
  shows "\<exists>raw ms.
           raw_find_near_matches_substitutions_ngrams S T K = Inr raw \<and>
           find_near_matches_substitutions_ngrams S T K = Inr ms \<and>
           distinct (map start ms) \<and> sorted (map start ms) \<and>
           start ` set ms = start ` set raw \<and>
           (\<forall>m \<in> set ms. find (\<lambda>m'. start m' = start m) raw = Some m) \<and>
           (\<forall>m \<in> set raw. \<forall>m' \<in> set raw. start m = start m' \<longrightarrow> m = m')"
proof -
  from raw_ngrams_set [OF assms(2,3), of T] obtain raw where
    raw: "raw_find_near_matches_substitutions_ngrams S T K = Inr raw"
    and set_raw: "set raw = window_match S T ` set (valid_starts S T K)" by blast
  let ?kept = "snd (fold keep_first raw ({}, []))"
  let ?ms = "sort_key start ?kept"
  have ms: "find_near_matches_substitutions_ngrams S T K = Inr ?ms"
    by (simp add: find_near_matches_substitutions_ngrams_def raw)
  have 1: "distinct (map start ?ms)"
    by (simp add: distinct_map_sort_key dedup_properties(1))
  have 2: "sorted (map start ?ms)" by (rule sorted_sort_key)
  have 3: "start ` set ?ms = start ` set raw" by (simp add: dedup_properties(2))
  have 4: "\<forall>m \<in> set ?ms. find (\<lambda>m'. start m' = start m) raw = Some m"
    by (simp add: dedup_properties(3))
  have 5: "\<forall>m \<in> set raw. \<forall>m' \<in> set raw. start m = start m' \<longrightarrow> m = m'"
    unfolding set_raw by auto
  show ?thesis using raw ms 1 2 3 4 5 by blast
qed

theorem ngrams_deduplicated_sorted_witness:
  "''abab'' \<noteq> [] \<and> (0::int) \<le> 1 \<and> 1 < int (length ''abab'') \<and>
   raw_find_near_matches_substitutions_ngrams ''abab'' ''xababab'' 1 =
     Inr [\<lparr>start = 1, end_index = 5, dist = 0\<rparr>, \<lparr>start = 3, end_index = 7, dist = 0\<rparr>,
          \<lparr>start = 1, end_index = 5, dist = 0\<rparr>, \<lparr>start = 3, end_index = 7, dist = 0\<rparr>] \<and>
   find_near_matches_substitutions_ngrams ''abab'' ''xababab'' 1 =
     Inr [\<lparr>start = 1, end_index = 5, dist = 0\<rparr>, \<lparr>start = 3, end_index = 7, dist = 0\<rparr>] \<and>
   (\<exists>raw ms.
      raw_find_near_matches_substitutions_ngrams ''abab'' ''xababab'' 1 = Inr raw \<and>
      find_near_matches_substitutions_ngrams ''abab'' ''xababab'' 1 = Inr ms \<and>
      distinct (map start ms) \<and> sorted (map start ms) \<and>
      start ` set ms = start ` set raw \<and>
      (\<forall>m \<in> set ms. find (\<lambda>m'. start m' = start m) raw = Some m) \<and>
      (\<forall>m \<in> set raw. \<forall>m' \<in> set raw. start m = start m' \<longrightarrow> m = m'))"
proof -
  have h1: "''abab'' \<noteq> []" by simp
  have h2: "(0::int) \<le> 1" by simp
  have h3: "1 < int (length ''abab'')" by simp
  have e1: "raw_find_near_matches_substitutions_ngrams ''abab'' ''xababab'' 1 =
     Inr [\<lparr>start = 1, end_index = 5, dist = 0\<rparr>, \<lparr>start = 3, end_index = 7, dist = 0\<rparr>,
          \<lparr>start = 1, end_index = 5, dist = 0\<rparr>, \<lparr>start = 3, end_index = 7, dist = 0\<rparr>]"
    by code_simp
  have e2: "find_near_matches_substitutions_ngrams ''abab'' ''xababab'' 1 =
     Inr [\<lparr>start = 1, end_index = 5, dist = 0\<rparr>, \<lparr>start = 3, end_index = 7, dist = 0\<rparr>]"
    by code_simp
  from ngrams_deduplicated_sorted [OF h1 h2 h3, of "''xababab''"] h1 h2 h3 e1 e2
  show ?thesis by (intro conjI) assumption+
qed

text \<open>
  C8. For a non-empty \<open>S\<close> and \<open>len(S) > K \<ge> 0\<close>, \<open>has_near_match_substitutions_ngrams\<close>
  returns true exactly when some window of \<open>T\<close> has at most \<open>K\<close> mismatches against \<open>S\<close>,
  exactly when \<open>find_near_matches_substitutions_ngrams\<close> returns a non-empty list, and
  exactly when the generator yields at least one match.
\<close>

theorem has_near_match_iff:
  assumes "S \<noteq> []" and "0 \<le> K" and "K < int (length S)"
  shows "\<exists>b ms raw.
           has_near_match_substitutions_ngrams S T K = Inr b \<and>
           find_near_matches_substitutions_ngrams S T K = Inr ms \<and>
           raw_find_near_matches_substitutions_ngrams S T K = Inr raw \<and>
           (b \<longleftrightarrow> {i. 0 \<le> i \<and> i \<le> int (length T) - int (length S) \<and>
                     count_mismatches S (py_slice T i (i + int (length S))) \<le> K} \<noteq> {}) \<and>
           (b \<longleftrightarrow> ms \<noteq> []) \<and> (b \<longleftrightarrow> raw \<noteq> [])"
proof -
  from raw_ngrams_set [OF assms(2,3), of T] obtain raw where
    raw: "raw_find_near_matches_substitutions_ngrams S T K = Inr raw"
    and set_raw: "set raw = window_match S T ` set (valid_starts S T K)" by blast
  have r: "raw \<noteq> [] \<longleftrightarrow> valid_starts S T K \<noteq> []"
    using set_raw by (metis image_is_empty set_empty)
  have v: "valid_starts S T K \<noteq> [] \<longleftrightarrow>
           {i. 0 \<le> i \<and> i \<le> int (length T) - int (length S) \<and>
               count_mismatches S (py_slice T i (i + int (length S))) \<le> K} \<noteq> {}"
    unfolding valid_starts_set_explicit [symmetric] by simp
  show ?thesis
    using raw r v
    by (simp add: has_near_match_eq_reference [OF assms(2,3)]
        ngrams_eq_reference [OF assms(2,3)])
qed

theorem has_near_match_iff_witness:
  "''abc'' \<noteq> [] \<and> (0::int) \<le> 1 \<and> 1 < int (length ''abc'') \<and>
   has_near_match_substitutions_ngrams ''abc'' ''xxaxc'' 1 = Inr True \<and>
   has_near_match_substitutions_ngrams ''abc'' ''xxaxx'' 1 = Inr False \<and>
   (\<exists>b ms raw.
      has_near_match_substitutions_ngrams ''abc'' ''xxaxc'' 1 = Inr b \<and>
      find_near_matches_substitutions_ngrams ''abc'' ''xxaxc'' 1 = Inr ms \<and>
      raw_find_near_matches_substitutions_ngrams ''abc'' ''xxaxc'' 1 = Inr raw \<and>
      (b \<longleftrightarrow> {i. 0 \<le> i \<and> i \<le> int (length ''xxaxc'') - int (length ''abc'') \<and>
                count_mismatches ''abc'' (py_slice ''xxaxc'' i (i + int (length ''abc''))) \<le> 1}
              \<noteq> {}) \<and>
      (b \<longleftrightarrow> ms \<noteq> []) \<and> (b \<longleftrightarrow> raw \<noteq> []))"
proof -
  have h1: "''abc'' \<noteq> []" by simp
  have h2: "(0::int) \<le> 1" by simp
  have h3: "1 < int (length ''abc'')" by simp
  have e1: "has_near_match_substitutions_ngrams ''abc'' ''xxaxc'' 1 = Inr True" by code_simp
  have e2: "has_near_match_substitutions_ngrams ''abc'' ''xxaxx'' 1 = Inr False" by code_simp
  from has_near_match_iff [OF h1 h2 h3, of "''xxaxc''"] h1 h2 h3 e1 e2
  show ?thesis by (intro conjI) assumption+
qed

text \<open>
  C9. For a non-empty \<open>S\<close>, \<open>len(T) \<ge> len(S)\<close> and \<open>K \<ge> len(S)\<close>, the dispatcher raises
  no error: the fragment length \<open>len(S) // (K + 1)\<close> is \<open>0\<close>, so the call goes to the
  ring-counter matcher, and the result has one match for every window start from \<open>0\<close> to
  \<open>len(T) - len(S)\<close>.
\<close>

theorem generous_budget:
  assumes "S \<noteq> []" and "length S \<le> length T" and "int (length S) \<le> K"
  shows "\<exists>ms. find_near_matches_substitutions S T K = Inr ms \<and>
           py_floordiv (int (length S)) (K + 1) = Inr 0 \<and>
           find_near_matches_substitutions_linear_programming S T K = Inr ms \<and>
           map start ms = [0 .. int (length T) - int (length S)]"
proof -
  have K: "0 \<le> K" using assms(3) by linarith
  have "int (length S) div (K + 1) = 0"
    using assms(3) by (simp add: div_pos_pos_trivial)
  then have "py_floordiv (int (length S)) (K + 1) = Inr 0"
    using K by (simp add: py_floordiv_def)
  moreover have "map start (map (window_match S T) (valid_starts S T K)) = valid_starts S T K"
    by (simp add: comp_def)
  ultimately show ?thesis
    by (simp add: dispatcher_eq_reference [OF assms(1) K] linear_eq_reference [OF assms(1)]
        valid_starts_all [OF assms(3)] del: map_map)
qed

theorem generous_budget_witness:
  "''abc'' \<noteq> [] \<and> length ''abc'' \<le> length ''abxyz'' \<and> int (length ''abc'') \<le> 3 \<and>
   find_near_matches_substitutions ''abc'' ''abxyz'' 3 =
     Inr [\<lparr>start = 0, end_index = 3, dist = 1\<rparr>, \<lparr>start = 1, end_index = 4, dist = 3\<rparr>,
          \<lparr>start = 2, end_index = 5, dist = 3\<rparr>] \<and>
   (\<exists>ms. find_near_matches_substitutions ''abc'' ''abxyz'' 3 = Inr ms \<and>
      py_floordiv (int (length ''abc'')) (3 + 1) = Inr 0 \<and>
      find_near_matches_substitutions_linear_programming ''abc'' ''abxyz'' 3 = Inr ms \<and>
      map start ms = [0 .. int (length ''abxyz'') - int (length ''abc'')])"
proof -
  have h1: "''abc'' \<noteq> []" by simp
  have h2: "length ''abc'' \<le> length ''abxyz''" by simp
  have h3: "int (length ''abc'') \<le> 3" by simp
  have e: "find_near_matches_substitutions ''abc'' ''abxyz'' 3 =
     Inr [\<lparr>start = 0, end_index = 3, dist = 1\<rparr>, \<lparr>start = 1, end_index = 4, dist = 3\<rparr>,
          \<lparr>start = 2, end_index = 5, dist = 3\<rparr>]"
    by code_simp
  from generous_budget [OF h1 h2 h3] h1 h2 h3 e
  show ?thesis by (intro conjI) assumption+
qed




section \<open>The edge cases of section 8, evaluated\<close>

lemma edge_case_exact: "find_near_matches_substitutions ''abc'' ''abc'' 0 =
    Inr [\<lparr>start = 0, end_index = 3, dist = 0\<rparr>]"
  by code_simp

lemma edge_case_one_substitution: "find_near_matches_substitutions ''abc'' ''axc'' 1 =
    Inr [\<lparr>start = 0, end_index = 3, dist = 1\<rparr>]"
  by code_simp

lemma edge_case_no_match: "find_near_matches_substitutions ''abc'' ''xyz'' 0 = Inr []"
  by code_simp

lemma edge_case_overlapping:
  "map_sum id (map start) (find_near_matches_substitutions ''aaaa'' ''aaaaaaaa'' 0) =
     Inr [0, 1, 2, 3, 4]"
  by code_simp

lemma edge_case_ngram_path:
  "find_near_matches_substitutions ''abcdefghi'' ''xxabcdefghixxabcxexghi'' 2 =
     Inr [\<lparr>start = 2, end_index = 11, dist = 0\<rparr>, \<lparr>start = 13, end_index = 22, dist = 2\<rparr>]"
  by code_simp

end
